theory Spec2Isabelle
  imports Complex_Main
begin

section \<open>Open-Loop Optimistic Planning: a model of \<open>olop.py\<close>\<close>

text \<open>
  The planner of \<open>rl_agents/agents/tree_search/olop.py\<close> is embedded function by
  function. Python exceptions are values of \<open>error\<close>; a call either returns a value
  together with the state it leaves behind, or raises with the state as it was when
  the exception left the function. A Python float is modelled by a real number, one
  of the two infinities or the not-a-number value; the arithmetic on finite values is
  that of the reals. The rounding of IEEE doubles, their overflow and their underflow
  are not modelled: a value of the model is the value of the code wherever every
  intermediate result of the code is a double computed without rounding, as it is for
  the discount factor 1/2 used below. No statement of this theory is about a rounded
  result.
\<close>

subsection \<open>Exceptions and outcomes\<close>

datatype error =
    ValueError | KeyError | TypeError | AttributeError
  | ZeroDivisionError | OverflowError | GenericException

datatype ('a, 's) outcome = Ok 'a 's | Raise error 's

subsection \<open>Floats\<close>

datatype flt = Fin real | PInf | NInf | NaN

fun fadd :: "flt \<Rightarrow> flt \<Rightarrow> flt" where
  "fadd (Fin a) (Fin b) = Fin (a + b)"
| "fadd NaN _ = NaN"
| "fadd _ NaN = NaN"
| "fadd PInf NInf = NaN"
| "fadd NInf PInf = NaN"
| "fadd PInf _ = PInf"
| "fadd _ PInf = PInf"
| "fadd NInf _ = NInf"
| "fadd _ NInf = NInf"

fun fmul :: "flt \<Rightarrow> flt \<Rightarrow> flt" where
  "fmul (Fin a) (Fin b) = Fin (a * b)"
| "fmul NaN _ = NaN"
| "fmul _ NaN = NaN"
| "fmul (Fin a) PInf = (if 0 < a then PInf else if a < 0 then NInf else NaN)"
| "fmul (Fin a) NInf = (if 0 < a then NInf else if a < 0 then PInf else NaN)"
| "fmul PInf (Fin b) = (if 0 < b then PInf else if b < 0 then NInf else NaN)"
| "fmul NInf (Fin b) = (if 0 < b then NInf else if b < 0 then PInf else NaN)"
| "fmul PInf PInf = PInf"
| "fmul NInf NInf = PInf"
| "fmul PInf NInf = NInf"
| "fmul NInf PInf = NInf"

text \<open>The comparison \<open>a < b\<close> of two floats: false as soon as one of them is not a number.\<close>

fun fless :: "flt \<Rightarrow> flt \<Rightarrow> bool" where
  "fless (Fin a) (Fin b) = (a < b)"
| "fless NaN _ = False"
| "fless _ NaN = False"
| "fless NInf NInf = False"
| "fless NInf _ = True"
| "fless PInf _ = False"
| "fless (Fin a) PInf = True"
| "fless (Fin a) NInf = False"

text \<open>Python's builtin \<open>min(a, b)\<close>: the first argument unless the second is strictly less.\<close>

definition py_min :: "flt \<Rightarrow> flt \<Rightarrow> flt" where
  "py_min a b = (if fless b a then b else a)"

subsection \<open>Configuration\<close>

text \<open>
  The planner's \<open>config\<close> dictionary. The entries \<open>horizon\<close> and \<open>episodes\<close> may
  be absent (a lookup then raises \<open>KeyError\<close>); the others always have a value, from
  the defaults.
\<close>

record config =
  budget :: int
  gamma :: real
  horizon_cfg :: "int option"
  episodes :: "int option"
  upper_bound :: string
  lazy_tree_construction :: bool

subsection \<open>Budget allocation\<close>

text \<open>
  \<open>OLOP.horizon\<close>: \<open>int(np.ceil(np.log(episodes) / (2 * np.log(1 / gamma))))\<close>.
  Where the float computation runs into an infinity or a not-a-number, the conversion
  \<open>int(...)\<close> raises (\<open>OverflowError\<close> for an infinity, \<open>ValueError\<close> for a
  not-a-number); \<open>1 / gamma\<close> raises for \<open>gamma = 0\<close>. The left operand is
  evaluated first: \<open>np.log\<close> raises \<open>TypeError\<close> on a Python integer that fits
  neither a signed nor an unsigned 64-bit integer. The quotient is that of the real
  logarithms, where the code divides two rounded logarithms: the two agree on the
  integer returned unless the quotient is within rounding distance of an integer.
\<close>

definition horizon :: "int \<Rightarrow> real \<Rightarrow> error + int" where
  "horizon eps g =
     (if eps < - (2 ^ 63) \<or> 2 ^ 64 \<le> eps then Inl TypeError
      else if g = 0 then Inl ZeroDivisionError
      else if g < 0 then Inl ValueError
      else if eps < 0 then Inl ValueError
      else if eps = 0 then Inl OverflowError
      else if g = 1 then (if eps = 1 then Inl ValueError else Inl OverflowError)
      else Inr \<lceil>ln (real_of_int eps) / (2 * ln (1 / g))\<rceil>)"

text \<open>The formula of the specification, \<open>ceil(ln(M) / (2 * ln(1/gamma)))\<close>.\<close>

definition horizon_formula :: "int \<Rightarrow> real \<Rightarrow> int" where
  "horizon_formula M g = \<lceil>ln (real_of_int M) / (2 * ln (1 / g))\<rceil>"

text \<open>
  \<open>OLOP.allocate_budget\<close>: the \<open>for\<close> loop over \<open>range(1, budget)\<close> with its
  \<open>break\<close> and its \<open>else\<close> branch. The list is what remains of the range.
\<close>

fun allocate_loop :: "config \<Rightarrow> int list \<Rightarrow> (unit, config) outcome" where
  "allocate_loop cfg [] = Raise ValueError cfg"
| "allocate_loop cfg (eps # rest) =
     (case horizon eps (gamma cfg) of
        Inl e \<Rightarrow> Raise e cfg
      | Inr h \<Rightarrow>
          if eps * h > budget cfg then
            (let cfg1 = cfg\<lparr>episodes := Some (eps - 1)\<rparr> in
             case horizon (eps - 1) (gamma cfg1) of
               Inl e \<Rightarrow> Raise e cfg1
             | Inr h' \<Rightarrow> Ok () (cfg1\<lparr>horizon_cfg := Some h'\<rparr>))
          else allocate_loop cfg rest)"

definition allocate_budget :: "config \<Rightarrow> (unit, config) outcome" where
  "allocate_budget cfg = allocate_loop cfg [1 .. budget cfg - 1]"

subsection \<open>Nodes and the planner state\<close>

text \<open>
  Nodes live in a store addressed by identifiers; a reference to a node is its
  identifier, so that a parent pointer, an entry of a \<open>children\<close> dictionary and an
  element of the list \<open>leaves\<close> may name the same node. \<open>next_id\<close> is the next
  unused identifier. A \<open>children\<close> dictionary is an association list in insertion
  order.

  Modelled from the spec: the base class \<open>Node\<close> of the tree-search framework
  (\<open>abstract.py\<close>) is not among the sources. Its fields \<open>parent\<close>, \<open>children\<close>
  (empty until expanded), \<open>count\<close> (zero samples at creation) and \<open>value\<close> (a
  scratch field, recomputed by every value pass) are as the specification's data model
  describes them.
\<close>

type_synonym action = int
type_synonym node_id = nat

record olop_node =
  parent :: "node_id option"
  children :: "(action \<times> node_id) list"
  count :: int
  node_value :: flt
  cumulative_reward :: flt
  mu_ucb :: flt
  done_flag :: bool

record planner =
  config :: config
  nodes :: "node_id \<Rightarrow> olop_node"
  next_id :: node_id
  root_node :: node_id
  leaves :: "node_id list"

text \<open>Assignment \<open>d[k] = v\<close> to a dictionary: in place for a key present, at the end otherwise.\<close>

fun dict_set :: "'k \<Rightarrow> 'v \<Rightarrow> ('k \<times> 'v) list \<Rightarrow> ('k \<times> 'v) list" where
  "dict_set k v [] = [(k, v)]"
| "dict_set k v ((k', v') # kvs) =
     (if k = k' then (k, v) # kvs else (k', v') # dict_set k v kvs)"

text \<open>\<open>OLOPNode.__init__\<close>, and the creation of a node object in the store.\<close>

definition new_node :: "config \<Rightarrow> node_id option \<Rightarrow> olop_node" where
  "new_node cfg p =
     \<lparr>parent = p, children = [], count = 0, node_value = Fin 0,
      cumulative_reward = Fin 0,
      mu_ucb = (if upper_bound cfg = ''kullback-leibler'' then Fin 1 else PInf),
      done_flag = False\<rparr>"

definition alloc_node :: "node_id option \<Rightarrow> planner \<Rightarrow> node_id \<times> planner" where
  "alloc_node p s =
     (next_id s,
      s\<lparr>nodes := (nodes s)(next_id s := new_node (config s) p),
        next_id := Suc (next_id s)\<rparr>)"

definition set_child :: "node_id \<Rightarrow> action \<Rightarrow> node_id \<Rightarrow> planner \<Rightarrow> planner" where
  "set_child n a c s =
     s\<lparr>nodes := (nodes s)(n := (nodes s n)\<lparr>children := dict_set a c (children (nodes s n))\<rparr>)\<rparr>"

definition set_value :: "node_id \<Rightarrow> flt \<Rightarrow> planner \<Rightarrow> planner" where
  "set_value n v s = s\<lparr>nodes := (nodes s)(n := (nodes s n)\<lparr>node_value := v\<rparr>)\<rparr>"

subsection \<open>External collaborators\<close>

text \<open>
  The environment: \<open>step\<close> returns the state after the transition, the reward and the
  \<open>done\<close> flag; \<open>get_available_actions\<close> is \<open>None\<close> for an environment without that
  method (the call raises \<open>AttributeError\<close>); \<open>action_space_n\<close> is
  \<open>action_space.n\<close>. An environment state is a value, so a deep copy of it is the
  state itself.
\<close>

record 'e environment =
  step :: "'e \<Rightarrow> action \<Rightarrow> 'e \<times> flt \<times> bool"
  get_available_actions :: "'e \<Rightarrow> action list option"
  action_space_n :: "'e \<Rightarrow> int"

text \<open>The two confidence bounds of \<open>rl_agents.agents.utils\<close>, taken as parameters.\<close>

record oracles =
  hoeffding_upper_bound :: "flt \<Rightarrow> int \<Rightarrow> int \<Rightarrow> flt"
  kl_upper_bound :: "flt \<Rightarrow> int \<Rightarrow> int \<Rightarrow> flt"

text \<open>
  The tree-search framework's traversal (the pairs of a node and its path from the root,
  in the order of the breadth-first visit), path reconstruction and final-plan
  extraction, taken as parameters.
\<close>

record framework =
  breadth_first_search :: "planner \<Rightarrow> (node_id \<times> action list) list"
  path :: "planner \<Rightarrow> node_id \<Rightarrow> action list"
  get_plan :: "planner \<Rightarrow> action list"

subsection \<open>Statistic update\<close>

definition STOP_ON_ANY_TERMINAL_STATE :: bool where
  "STOP_ON_ANY_TERMINAL_STATE = True"

text \<open>The test \<open>0 <= reward <= 1\<close>.\<close>

definition in_unit :: "flt \<Rightarrow> bool" where
  "in_unit r = (case r of Fin x \<Rightarrow> 0 \<le> x \<and> x \<le> 1 | _ \<Rightarrow> False)"

definition mark_done :: "bool \<Rightarrow> olop_node \<Rightarrow> olop_node" where
  "mark_done dn nd = (if dn \<and> STOP_ON_ANY_TERMINAL_STATE then nd\<lparr>done_flag := True\<rparr> else nd)"

text \<open>\<open>OLOPNode.update\<close>, on the node itself.\<close>

definition update :: "oracles \<Rightarrow> config \<Rightarrow> flt \<Rightarrow> bool \<Rightarrow> olop_node \<Rightarrow> (unit, olop_node) outcome" where
  "update orc cfg reward dn nd =
     (if \<not> in_unit reward then Raise ValueError nd
      else
        let nd1 = nd\<lparr>cumulative_reward := fadd (cumulative_reward nd) reward\<rparr>;
            nd2 = nd1\<lparr>count := count nd1 + 1\<rparr>
        in
          if upper_bound cfg = ''hoeffding'' then
            (case episodes cfg of
               None \<Rightarrow> Raise KeyError nd2
             | Some eps \<Rightarrow>
                 Ok () (mark_done dn
                   (nd2\<lparr>mu_ucb := hoeffding_upper_bound orc (cumulative_reward nd2) (count nd2) eps\<rparr>)))
          else if upper_bound cfg = ''kullback-leibler'' then
            (case episodes cfg of
               None \<Rightarrow> Raise KeyError nd2
             | Some eps \<Rightarrow>
                 Ok () (mark_done dn
                   (nd2\<lparr>mu_ucb := kl_upper_bound orc (cumulative_reward nd2) (count nd2) eps\<rparr>)))
          else Ok () (mark_done dn nd2))"

text \<open>The same call on a node of the store.\<close>

definition update_node :: "oracles \<Rightarrow> node_id \<Rightarrow> flt \<Rightarrow> bool \<Rightarrow> planner \<Rightarrow> (unit, planner) outcome" where
  "update_node orc n reward dn s =
     (case update orc (config s) reward dn (nodes s n) of
        Ok _ nd \<Rightarrow> Ok () (s\<lparr>nodes := (nodes s)(n := nd)\<rparr>)
      | Raise e nd \<Rightarrow> Raise e (s\<lparr>nodes := (nodes s)(n := nd)\<rparr>))"

subsection \<open>Expansion\<close>

text \<open>
  \<open>OLOPNode.expand\<close>. The loop over the actions creates a child per action and, when
  asked to, samples it once on a copy of the state. The list \<open>leaves\<close> handed to
  \<open>expand\<close> is the planner's own list (the only call passes \<open>self.leaves\<close>).
\<close>

fun expand_loop ::
  "'e environment \<Rightarrow> oracles \<Rightarrow> 'e \<Rightarrow> bool \<Rightarrow> node_id \<Rightarrow> action list \<Rightarrow> planner
     \<Rightarrow> (unit, planner) outcome" where
  "expand_loop env orc st upd n [] s = Ok () s"
| "expand_loop env orc st upd n (a # as) s =
     (case alloc_node (Some n) s of
        (c, s1) \<Rightarrow>
          let s2 = set_child n a c s1 in
          if upd then
            (case step env st a of
               (_, reward, dn) \<Rightarrow>
                 (case update_node orc c reward dn s2 of
                    Raise e s3 \<Rightarrow> Raise e s3
                  | Ok _ s3 \<Rightarrow> expand_loop env orc st upd n as s3))
          else expand_loop env orc st upd n as s2)"

definition available_actions :: "'e environment \<Rightarrow> 'e \<Rightarrow> action list" where
  "available_actions env st =
     (case get_available_actions env st of
        Some acts \<Rightarrow> acts
      | None \<Rightarrow> [0 .. action_space_n env st - 1])"

definition expand ::
  "'e environment \<Rightarrow> oracles \<Rightarrow> 'e option \<Rightarrow> bool \<Rightarrow> node_id \<Rightarrow> planner
     \<Rightarrow> (unit, planner) outcome" where
  "expand env orc state upd n s =
     (case state of
        None \<Rightarrow> Raise GenericException s
      | Some st \<Rightarrow>
          (case expand_loop env orc st upd n (available_actions env st) s of
             Raise e s1 \<Rightarrow> Raise e s1
           | Ok _ s1 \<Rightarrow>
               if n \<in> set (leaves s1)
               then Ok () (s1\<lparr>leaves := remove1 n (leaves s1) @ map snd (children (nodes s1 n))\<rparr>)
               else Raise ValueError s1))"

text \<open>
  Modelled from the spec: \<open>Node.expand(branching_factor)\<close> of the framework is not
  among the sources. It creates one child per action of the dense range
  \<open>0, ..., branching_factor - 1\<close>, of the node's own class, and leaves the frontier alone.
\<close>

fun node_expand_loop :: "node_id \<Rightarrow> action list \<Rightarrow> planner \<Rightarrow> planner" where
  "node_expand_loop n [] s = s"
| "node_expand_loop n (a # as) s =
     (case alloc_node (Some n) s of (c, s1) \<Rightarrow> node_expand_loop n as (set_child n a c s1))"

definition node_expand :: "int \<Rightarrow> node_id \<Rightarrow> planner \<Rightarrow> planner" where
  "node_expand branching_factor n s = node_expand_loop n [0 .. branching_factor - 1] s"

subsection \<open>Root construction and the prebuilt tree\<close>

text \<open>\<open>OLOP.prebuild_tree\<close>: the inner loop over the leaves, then the loop over the levels.\<close>

fun prebuild_level :: "int \<Rightarrow> node_id list \<Rightarrow> node_id list \<Rightarrow> planner \<Rightarrow> planner" where
  "prebuild_level b [] next_leaves s = s\<lparr>leaves := next_leaves\<rparr>"
| "prebuild_level b (leaf # rest) next_leaves s =
     (let s1 = node_expand b leaf s
      in prebuild_level b rest (next_leaves @ map snd (children (nodes s1 leaf))) s1)"

fun prebuild_levels :: "nat \<Rightarrow> int \<Rightarrow> planner \<Rightarrow> planner" where
  "prebuild_levels 0 b s = s"
| "prebuild_levels (Suc k) b s = prebuild_levels k b (prebuild_level b (leaves s) [] s)"

definition prebuild_tree :: "int \<Rightarrow> planner \<Rightarrow> (unit, planner) outcome" where
  "prebuild_tree branching_factor s =
     (case horizon_cfg (config s) of
        None \<Rightarrow> Raise KeyError s
      | Some h \<Rightarrow> Ok () (prebuild_levels (nat h) branching_factor s))"

text \<open>\<open>OLOP.make_root\<close>; \<open>e\<close> is the planner's environment \<open>self.env\<close>.\<close>

definition make_root :: "'e environment \<Rightarrow> 'e \<Rightarrow> planner \<Rightarrow> (node_id, planner) outcome" where
  "make_root env e s =
     (case alloc_node None s of
        (r, s1) \<Rightarrow>
          let s2 = s1\<lparr>leaves := [r]\<rparr> in
          (case (if horizon_cfg (config s2) = None
                 then (case allocate_budget (config s2) of
                         Ok _ c \<Rightarrow> Ok () (s2\<lparr>config := c\<rparr>)
                       | Raise e c \<Rightarrow> Raise e (s2\<lparr>config := c\<rparr>))
                 else Ok () s2) of
             Raise e s3 \<Rightarrow> Raise e s3
           | Ok _ s3 \<Rightarrow>
               if \<not> lazy_tree_construction (config s3)
               then (case prebuild_tree (action_space_n env e) s3 of
                       Raise e s4 \<Rightarrow> Raise e s4
                     | Ok _ s4 \<Rightarrow> Ok r s4)
               else Ok r s3))"

subsection \<open>Value computation\<close>

text \<open>
  \<open>OLOP.compute_u_values\<close>: the loop \<open>for t in np.arange(len(path), 0, -1)\<close> adds to
  the value of the node \<open>n\<close> and walks \<open>node_t\<close> up the parent pointers; reading a
  field of the absent parent of the root raises \<open>AttributeError\<close>. The powers
  \<open>gamma ** t\<close>, the products and the sums are those of the reals.
\<close>

fun accumulate_u :: "real \<Rightarrow> node_id \<Rightarrow> nat \<Rightarrow> node_id option \<Rightarrow> planner \<Rightarrow> (unit, planner) outcome" where
  "accumulate_u g n 0 node_t s = Ok () s"
| "accumulate_u g n (Suc t) node_t s =
     (case node_t of
        None \<Rightarrow> Raise AttributeError s
      | Some m \<Rightarrow>
          accumulate_u g n t (parent (nodes s m))
            (set_value n
               (fadd (node_value (nodes s n)) (fmul (Fin (g ^ Suc t)) (mu_ucb (nodes s m)))) s))"

definition compute_u_values ::
  "planner \<Rightarrow> node_id \<Rightarrow> action list \<Rightarrow> (action list \<times> flt, planner) outcome" where
  "compute_u_values s n pth =
     (let g = gamma (config s) in
      if \<not> done_flag (nodes s n) \<and> g = 1 then Raise ZeroDivisionError s
      else
        let v0 = (if \<not> done_flag (nodes s n)
                  then Fin (g ^ (length pth + 1) / (1 - g)) else Fin 0)
        in case accumulate_u g n (length pth) (Some n) (set_value n v0 s) of
             Raise e s1 \<Rightarrow> Raise e s1
           | Ok _ s1 \<Rightarrow> Ok (pth, node_value (nodes s1 n)) s1)"

text \<open>
  \<open>OLOP.sharpen_b_values\<close>: the \<open>while node_t.parent\<close> loop follows parent pointers
  for as long as there are some, so it is a partial function of the store.
\<close>

partial_function (option) sharpen_loop :: "(node_id \<Rightarrow> olop_node) \<Rightarrow> node_id \<Rightarrow> flt \<Rightarrow> flt option" where
  "sharpen_loop ns node_t min_value =
     (case parent (ns node_t) of
        None \<Rightarrow> Some min_value
      | Some p \<Rightarrow> sharpen_loop ns p (py_min min_value (node_value (ns node_t))))"

definition sharpen_b_values :: "planner \<Rightarrow> node_id \<Rightarrow> flt option" where
  "sharpen_b_values s n =
     (if upper_bound (config s) = ''kullback-leibler'' then Some (node_value (nodes s n))
      else sharpen_loop (nodes s) n (node_value (nodes s n)))"

subsection \<open>Episodes\<close>

text \<open>
  \<open>np.argmax\<close> of a list of floats: the index of the first maximum, a not-a-number
  counting as the maximum; \<open>None\<close> for the empty list, where numpy raises
  \<open>ValueError\<close>.
\<close>

fun argmax_from :: "nat \<Rightarrow> flt \<Rightarrow> nat \<Rightarrow> flt list \<Rightarrow> nat" where
  "argmax_from bi bv i [] = bi"
| "argmax_from bi bv i (x # xs) =
     (if bv \<noteq> NaN \<and> (x = NaN \<or> fless bv x) then argmax_from i x (Suc i) xs
      else argmax_from bi bv (Suc i) xs)"

definition argmax :: "flt list \<Rightarrow> nat option" where
  "argmax xs = (case xs of [] \<Rightarrow> None | x # rest \<Rightarrow> Some (argmax_from 0 x 1 rest))"

text \<open>The slice \<open>xs[:h]\<close>, and the padding of the best sequence under lazy construction.\<close>

definition py_take :: "int \<Rightarrow> 'a list \<Rightarrow> 'a list" where
  "py_take h xs = (if 0 \<le> h then take (nat h) xs else take (nat (int (length xs) + h)) xs)"

definition pad_sequence :: "config \<Rightarrow> action list \<Rightarrow> error + action list" where
  "pad_sequence cfg best =
     (if lazy_tree_construction cfg then
        (case horizon_cfg cfg of
           None \<Rightarrow> Inl KeyError
         | Some h \<Rightarrow> Inr (py_take h best @ replicate (nat (h - int (length best))) 0))
      else Inr best)"

text \<open>
  The execution loop of \<open>OLOP.run\<close> (\<open>for action in best_sequence\<close>). The expression
  \<open>node.children.keys()[0]\<close> subscripts a dictionary view, which Python 3 refuses with
  \<open>TypeError\<close>.
\<close>

fun rollout ::
  "'e environment \<Rightarrow> oracles \<Rightarrow> 'e \<Rightarrow> node_id \<Rightarrow> action list \<Rightarrow> planner
     \<Rightarrow> (unit, planner) outcome" where
  "rollout env orc st node [] s = Ok () s"
| "rollout env orc st node (a # rest) s =
     (case step env st a of
        (st', reward, dn) \<Rightarrow>
          (case (if children (nodes s node) = []
                 then expand env orc (Some st') False node s else Ok () s) of
             Raise e s1 \<Rightarrow> Raise e s1
           | Ok _ s1 \<Rightarrow>
               (case map_of (children (nodes s1 node)) a of
                  None \<Rightarrow> Raise TypeError s1
                | Some c \<Rightarrow>
                    (case update_node orc c reward dn s1 of
                       Raise e s2 \<Rightarrow> Raise e s2
                     | Ok _ s2 \<Rightarrow>
                         if dn then Ok () s2 else rollout env orc st' c rest s2))))"

fun compute_all :: "(node_id \<times> action list) list \<Rightarrow> planner \<Rightarrow> (unit, planner) outcome" where
  "compute_all [] s = Ok () s"
| "compute_all ((n, pth) # rest) s =
     (case compute_u_values s n pth of
        Raise e s1 \<Rightarrow> Raise e s1
      | Ok _ s1 \<Rightarrow> compute_all rest s1)"

text \<open>\<open>OLOP.run\<close>; the result is \<open>None\<close> when a sharpening loop does not return.\<close>

definition run ::
  "framework \<Rightarrow> 'e environment \<Rightarrow> oracles \<Rightarrow> 'e \<Rightarrow> planner \<Rightarrow> (unit, planner) outcome option" where
  "run fw env orc st s =
     (case compute_all (breadth_first_search fw s) s of
        Raise e s1 \<Rightarrow> Some (Raise e s1)
      | Ok _ s1 \<Rightarrow>
          (case those (map (sharpen_b_values s1) (leaves s1)) of
             None \<Rightarrow> None
           | Some sequences_upper_bounds \<Rightarrow>
               (case argmax sequences_upper_bounds of
                  None \<Rightarrow> Some (Raise ValueError s1)
                | Some i \<Rightarrow>
                    (case pad_sequence (config s1) (path fw s1 (leaves s1 ! i)) of
                       Inl e \<Rightarrow> Some (Raise e s1)
                     | Inr best_sequence \<Rightarrow>
                         Some (rollout env orc st (root_node s1) best_sequence s1)))))"

text \<open>\<open>OLOP.plan\<close>: each episode runs on a copy of the state.\<close>

fun run_episodes ::
  "nat \<Rightarrow> framework \<Rightarrow> 'e environment \<Rightarrow> oracles \<Rightarrow> 'e \<Rightarrow> planner
     \<Rightarrow> (unit, planner) outcome option" where
  "run_episodes 0 fw env orc st s = Some (Ok () s)"
| "run_episodes (Suc k) fw env orc st s =
     (case run fw env orc st s of
        None \<Rightarrow> None
      | Some (Raise e s1) \<Rightarrow> Some (Raise e s1)
      | Some (Ok _ s1) \<Rightarrow> run_episodes k fw env orc st s1)"

definition plan ::
  "framework \<Rightarrow> 'e environment \<Rightarrow> oracles \<Rightarrow> 'e \<Rightarrow> planner
     \<Rightarrow> (action list, planner) outcome option" where
  "plan fw env orc st s =
     (case episodes (config s) of
        None \<Rightarrow> Some (Raise KeyError s)
      | Some eps \<Rightarrow>
          (case run_episodes (nat eps) fw env orc st s of
             None \<Rightarrow> None
           | Some (Raise e s1) \<Rightarrow> Some (Raise e s1)
           | Some (Ok _ s1) \<Rightarrow> Some (Ok (get_plan fw s1) s1)))"

subsection \<open>Ancestors, depth and paths\<close>

text \<open>The \<open>k\<close>-th ancestor of a node along the parent pointers (the node itself for \<open>k = 0\<close>).\<close>

fun ancestor :: "(node_id \<Rightarrow> olop_node) \<Rightarrow> node_id \<Rightarrow> nat \<Rightarrow> node_id option" where
  "ancestor ns n 0 = Some n"
| "ancestor ns n (Suc k) = (case parent (ns n) of None \<Rightarrow> None | Some p \<Rightarrow> ancestor ns p k)"

text \<open>A node is at depth \<open>d\<close> when its \<open>d\<close>-th ancestor is a node without parent.\<close>

definition at_depth :: "(node_id \<Rightarrow> olop_node) \<Rightarrow> node_id \<Rightarrow> nat \<Rightarrow> bool" where
  "at_depth ns n d = (case ancestor ns n d of None \<Rightarrow> False | Some r \<Rightarrow> parent (ns r) = None)"


subsection \<open>Concrete inputs\<close>

text \<open>A planner before root construction, with an empty store.\<close>

definition planner_init :: "config \<Rightarrow> planner" where
  "planner_init cfg =
     \<lparr>config = cfg, nodes = (\<lambda>_. new_node cfg None), next_id = 0, root_node = 0, leaves = []\<rparr>"

text \<open>
  An environment with two actions and no enumeration of available actions: its state
  counts the steps, action 0 pays 1 and action 1 pays 0.
\<close>

definition env_toy :: "nat environment" where
  "env_toy =
     \<lparr>step = (\<lambda>t a. (Suc t, Fin (if a = 0 then 1 else 0), False)),
      get_available_actions = (\<lambda>t. None),
      action_space_n = (\<lambda>t. 2)\<rparr>"

definition cfg_six :: config where
  "cfg_six = \<lparr>budget = 6, gamma = 1/2, horizon_cfg = None, episodes = None,
               upper_bound = ''hoeffding'', lazy_tree_construction = False\<rparr>"

definition cfg_three :: config where
  "cfg_three = \<lparr>budget = 3, gamma = 1/2, horizon_cfg = None, episodes = None,
               upper_bound = ''hoeffding'', lazy_tree_construction = False\<rparr>"

text \<open>Two constant confidence bounds, and a framework that visits the root alone.\<close>

definition orc_toy :: oracles where
  "orc_toy = \<lparr>hoeffding_upper_bound = (\<lambda>r c e. PInf), kl_upper_bound = (\<lambda>r c e. Fin 1)\<rparr>"

definition fw_toy :: framework where
  "fw_toy = \<lparr>breadth_first_search = (\<lambda>s. [(root_node s, [])]), path = (\<lambda>s n. []),
              get_plan = (\<lambda>s. [])\<rparr>"

definition cfg_fixed_horizon :: config where
  "cfg_fixed_horizon = \<lparr>budget = 6, gamma = 1/2, horizon_cfg = Some 2, episodes = None,
               upper_bound = ''hoeffding'', lazy_tree_construction = False\<rparr>"

text \<open>
  A prebuilt tree of depth one with two actions (the root 0 and its children 1 and 2),
  and the same tree after the first value pass.
\<close>

definition cfg_depth_one :: config where
  "cfg_depth_one = \<lparr>budget = 6, gamma = 1/2, horizon_cfg = Some 1, episodes = Some 4,
               upper_bound = ''hoeffding'', lazy_tree_construction = False\<rparr>"

definition tree_one :: planner where
  "tree_one =
     \<lparr>config = cfg_depth_one,
      nodes = (\<lambda>_. new_node cfg_depth_one None)
        (0 := (new_node cfg_depth_one None)\<lparr>children := [(0, 1), (1, 2)]\<rparr>,
         1 := new_node cfg_depth_one (Some 0),
         2 := new_node cfg_depth_one (Some 0)),
      next_id = 3, root_node = 0, leaves = [1, 2]\<rparr>"

definition tree_one_valued :: planner where
  "tree_one_valued = set_value 2 PInf (set_value 1 PInf (set_value 0 (Fin 1) tree_one))"

text \<open>
  A chain of depth three with one action, after a first value pass at discount factor
  1/2 in which each node below the root has the bound 2: the values are 1 at the root
  0, then 3/2, 7/4 and 15/8 down to the leaf 3. The same tree under the
  Kullback-Leibler bound.
\<close>

definition cfg_chain :: config where
  "cfg_chain = \<lparr>budget = 6, gamma = 1/2, horizon_cfg = Some 3, episodes = Some 2,
               upper_bound = ''hoeffding'', lazy_tree_construction = False\<rparr>"

definition tree_chain :: planner where
  "tree_chain =
     \<lparr>config = cfg_chain,
      nodes = (\<lambda>_. new_node cfg_chain None)
        (0 := (new_node cfg_chain None)\<lparr>children := [(0, 1)], node_value := Fin 1\<rparr>,
         1 := (new_node cfg_chain (Some 0))
                \<lparr>children := [(0, 2)], node_value := Fin (3/2), mu_ucb := Fin 2\<rparr>,
         2 := (new_node cfg_chain (Some 1))
                \<lparr>children := [(0, 3)], node_value := Fin (7/4), mu_ucb := Fin 2\<rparr>,
         3 := (new_node cfg_chain (Some 2))\<lparr>node_value := Fin (15/8), mu_ucb := Fin 2\<rparr>),
      next_id = 4, root_node = 0, leaves = [3]\<rparr>"

definition tree_chain_kl :: planner where
  "tree_chain_kl = tree_chain\<lparr>config := (config tree_chain)\<lparr>upper_bound := ''kullback-leibler''\<rparr>\<rparr>"

text \<open>
  An environment that reports the actions 1 and 2 as available (action 0 is not), a
  configuration with lazy construction, the tree root construction builds for it, and
  that tree once the root is expanded.
\<close>

definition env_narrow :: "nat environment" where
  "env_narrow =
     \<lparr>step = (\<lambda>t a. (Suc t, Fin (if a = 1 then 1 else 0), False)),
      get_available_actions = (\<lambda>t. Some [1, 2]),
      action_space_n = (\<lambda>t. 3)\<rparr>"

definition cfg_lazy :: config where
  "cfg_lazy = \<lparr>budget = 6, gamma = 1/2, horizon_cfg = Some 2, episodes = Some 4,
               upper_bound = ''hoeffding'', lazy_tree_construction = True\<rparr>"

definition tree_lazy :: planner where
  "tree_lazy =
     \<lparr>config = cfg_lazy, nodes = (\<lambda>_. new_node cfg_lazy None),
      next_id = 1, root_node = 0, leaves = [0]\<rparr>"

definition tree_lazy_expanded :: planner where
  "tree_lazy_expanded =
     \<lparr>config = cfg_lazy,
      nodes = (\<lambda>_. new_node cfg_lazy None)
        (0 := (new_node cfg_lazy None)\<lparr>children := [(1, 1), (2, 2)], node_value := Fin 1\<rparr>,
         1 := new_node cfg_lazy (Some 0),
         2 := new_node cfg_lazy (Some 0)),
      next_id = 3, root_node = 0, leaves = [1, 2]\<rparr>"

text \<open>
  One round of the expansion loop: a fresh node becomes the child of \<open>n\<close> under the
  action \<open>a\<close>.
\<close>

definition add_child :: "node_id \<Rightarrow> action \<Rightarrow> planner \<Rightarrow> planner" where
  "add_child n a s = set_child n a (next_id s) (snd (alloc_node (Some n) s))"

text \<open>
  The nodes reachable from the root through the \<open>children\<close> dictionaries, and the
  frontier invariant: the list \<open>leaves\<close> has no repetition and holds exactly the
  reachable nodes without children. In a well-formed store every reachable node has
  been allocated.
\<close>

inductive reachable :: "planner \<Rightarrow> node_id \<Rightarrow> bool" for s where
  root: "reachable s (root_node s)"
| child: "reachable s p \<Longrightarrow> map_of (children (nodes s p)) a = Some c \<Longrightarrow> reachable s c"

definition frontier_invariant :: "planner \<Rightarrow> bool" where
  "frontier_invariant s \<longleftrightarrow>
     distinct (leaves s)
     \<and> set (leaves s) = {m. reachable s m \<and> children (nodes s m) = []}"

definition store_ok :: "planner \<Rightarrow> bool" where
  "store_ok s \<longleftrightarrow> (\<forall>m. reachable s m \<longrightarrow> m < next_id s)"

text \<open>An environment that reports no available action.\<close>

definition env_none :: "nat environment" where
  "env_none =
     \<lparr>step = (\<lambda>t a. (Suc t, Fin 0, True)),
      get_available_actions = (\<lambda>t. Some []),
      action_space_n = (\<lambda>t. 2)\<rparr>"

text \<open>
  The layout of the prebuilt tree in the store: the nodes of depth \<open>j\<close> are the
  \<open>bn ^ j\<close> nodes allocated from \<open>level_start bn r j\<close> on, \<open>r\<close> being the root, and
  the node reached by a sequence of actions is found at the index \<open>arm_index\<close> of the
  sequence within its level.
\<close>

fun level_start :: "nat \<Rightarrow> node_id \<Rightarrow> nat \<Rightarrow> node_id" where
  "level_start bn r 0 = r"
| "level_start bn r (Suc j) = level_start bn r j + bn ^ j"


text \<open>
  The layout itself, after \<open>k\<close> passes: the frontier is the last level, each node
  above it has its block of children, one per action, and each child points back to its
  parent.
\<close>

definition prebuilt_layout :: "nat \<Rightarrow> node_id \<Rightarrow> nat \<Rightarrow> planner \<Rightarrow> bool" where
  "prebuilt_layout bn r k s \<longleftrightarrow>
     next_id s = level_start bn r (Suc k)
     \<and> leaves s = [level_start bn r k ..< level_start bn r (Suc k)]
     \<and> (\<forall>j<k. \<forall>i<bn ^ j. children (nodes s (level_start bn r j + i))
            = map (\<lambda>a. (int a, level_start bn r (Suc j) + i * bn + a)) [0..<bn])
     \<and> (\<forall>i<bn ^ k. children (nodes s (level_start bn r k + i)) = [])
     \<and> parent (nodes s r) = None
     \<and> (\<forall>j<k. \<forall>i<bn ^ j. \<forall>a<bn.
            parent (nodes s (level_start bn r (Suc j) + i * bn + a)) = Some (level_start bn r j + i))"


section \<open>Properties\<close>

subsection \<open>The horizon formula\<close>

lemma horizon_in_domain:
  assumes "0 < g" "g < 1" "1 \<le> M" "M < 2 ^ 64"
  shows "horizon M g = Inr (horizon_formula M g)"
  using assms by (simp add: horizon_def horizon_formula_def)

lemma ln_inverse_pos:
  assumes "0 < g" "g < (1::real)"
  shows "0 < ln (1 / g)"
  using assms by simp

lemma horizon_formula_nonneg:
  assumes "0 < g" "g < 1" "1 \<le> M"
  shows "0 \<le> horizon_formula M g"
proof -
  have "0 \<le> ln (real_of_int M)" using assms by simp
  moreover have "0 < 2 * ln (1 / g)" using ln_inverse_pos[OF assms(1,2)] by simp
  ultimately have "0 \<le> ln (real_of_int M) / (2 * ln (1 / g))" by simp
  then show ?thesis unfolding horizon_formula_def by (simp add: ceiling_le_iff[symmetric] order_trans[OF _ le_of_int_ceiling])
qed

lemma horizon_formula_one: "horizon_formula 1 g = 0"
  by (simp add: horizon_formula_def)

lemma horizon_formula_mono_M:
  assumes "0 < g" "g < 1" "1 \<le> M" "M \<le> M'"
  shows "horizon_formula M g \<le> horizon_formula M' g"
proof -
  have d: "0 < 2 * ln (1 / g)" using ln_inverse_pos[OF assms(1,2)] by simp
  have "ln (real_of_int M) \<le> ln (real_of_int M')" using assms by simp
  then have "ln (real_of_int M) / (2 * ln (1 / g)) \<le> ln (real_of_int M') / (2 * ln (1 / g))"
    using d by (simp add: divide_right_mono)
  then show ?thesis unfolding horizon_formula_def by (rule ceiling_mono)
qed

lemma horizon_formula_mono_gamma:
  assumes "0 < g" "g \<le> g'" "g' < 1" "1 \<le> M"
  shows "horizon_formula M g \<le> horizon_formula M g'"
proof -
  have d': "0 < ln (1 / g')" using assms by simp
  have "1 / g' \<le> 1 / g" using assms by (simp add: frac_le)
  moreover have "0 < 1 / g'" using assms by simp
  ultimately have "ln (1 / g') \<le> ln (1 / g)" by (simp only: ln_mono)
  then have dd: "2 * ln (1 / g') \<le> 2 * ln (1 / g)" by simp
  have n: "0 \<le> ln (real_of_int M)" using assms by simp
  have "ln (real_of_int M) / (2 * ln (1 / g)) \<le> ln (real_of_int M) / (2 * ln (1 / g'))"
    by (rule divide_left_mono[OF dd n]) (use d' dd in \<open>simp add: zero_less_mult_iff\<close>)
  then show ?thesis unfolding horizon_formula_def by (rule ceiling_mono)
qed

text \<open>
  For a natural number \<open>k\<close>, the horizon of \<open>M\<close> episodes is at most \<open>k\<close> exactly when
  \<open>M * gamma ^ (2 * k) \<le> 1\<close>: this decides the horizon at rational arguments.
\<close>

lemma horizon_formula_le_iff:
  assumes "0 < g" "g < 1" "1 \<le> M"
  shows "horizon_formula M g \<le> int k \<longleftrightarrow> real_of_int M * g ^ (2 * k) \<le> 1"
proof -
  have d: "0 < 2 * ln (1 / g)" using ln_inverse_pos[OF assms(1,2)] by simp
  have Mpos: "0 < real_of_int M" using assms by simp
  have gk: "0 < g ^ (2 * k)" using assms by simp
  have "horizon_formula M g \<le> int k \<longleftrightarrow> ln (real_of_int M) / (2 * ln (1 / g)) \<le> real k"
    unfolding horizon_formula_def by (simp add: ceiling_le_iff)
  also have "\<dots> \<longleftrightarrow> ln (real_of_int M) \<le> real k * (2 * ln (1 / g))"
    using d by (simp add: pos_divide_le_eq)
  also have "\<dots> \<longleftrightarrow> ln (real_of_int M) + real (2 * k) * ln g \<le> 0"
  proof -
    have "real k * (2 * ln (1 / g)) = - (real (2 * k) * ln g)"
      using assms by (simp add: ln_div)
    then show ?thesis by linarith
  qed
  also have "\<dots> \<longleftrightarrow> ln (real_of_int M * g ^ (2 * k)) \<le> 0"
    using Mpos gk assms by (simp add: ln_mult ln_realpow)
  also have "\<dots> \<longleftrightarrow> real_of_int M * g ^ (2 * k) \<le> 1"
    using Mpos gk by (simp add: ln_le_zero_iff)
  finally show ?thesis .
qed

lemma horizon_formula_eq_0:
  assumes "0 < g" "g < 1"
  shows "horizon_formula 1 g = 0"
  by (rule horizon_formula_one)

lemma horizon_formula_eq_Suc:
  assumes "0 < g" "g < 1" "1 \<le> M"
    and "real_of_int M * g ^ (2 * Suc k) \<le> 1"
    and "1 < real_of_int M * g ^ (2 * k)"
  shows "horizon_formula M g = int (Suc k)"
proof -
  have "horizon_formula M g \<le> int (Suc k)"
    using horizon_formula_le_iff[OF assms(1-3), of "Suc k"] assms(4) by simp
  moreover have "\<not> horizon_formula M g \<le> int k"
    using horizon_formula_le_iff[OF assms(1-3), of k] assms(5) by simp
  ultimately show ?thesis by simp
qed

subsection \<open>Values of the horizon at rational arguments\<close>

lemma horizon_values_half:
  "horizon 1 (1/2) = Inr 0" "horizon 2 (1/2) = Inr 1" "horizon 3 (1/2) = Inr 1"
  "horizon 4 (1/2) = Inr 1" "horizon 5 (1/2) = Inr 2"
proof -
  have g: "(0::real) < 1/2" "(1/2::real) < 1" by simp_all
  show "horizon 1 (1/2) = Inr 0"
    using horizon_in_domain[OF g, of 1] by (simp add: horizon_formula_one)
  show "horizon 2 (1/2) = Inr 1"
    using horizon_in_domain[OF g, of 2] horizon_formula_eq_Suc[OF g, of 2 0] by (simp add: power2_eq_square)
  show "horizon 3 (1/2) = Inr 1"
    using horizon_in_domain[OF g, of 3] horizon_formula_eq_Suc[OF g, of 3 0] by (simp add: power2_eq_square)
  show "horizon 4 (1/2) = Inr 1"
    using horizon_in_domain[OF g, of 4] horizon_formula_eq_Suc[OF g, of 4 0] by (simp add: power2_eq_square)
  show "horizon 5 (1/2) = Inr 2"
    using horizon_in_domain[OF g, of 5] horizon_formula_eq_Suc[OF g, of 5 1] by (simp add: power2_eq_square power4_eq_xxxx)
qed

subsection \<open>Failure of the allocation\<close>

lemma allocate_budget_three:
  "allocate_budget cfg_three = Raise ValueError cfg_three"
  by (simp add: allocate_budget_def cfg_three_def horizon_values_half upto_rec1)

text \<open>
  Claim C4 is right and the code is not. With budget 3 and discount factor 1/2 the
  splits \<open>(1, 0)\<close>, \<open>(2, 1)\<close> and \<open>(3, 1)\<close> all fit the budget, the largest being
  3 episodes of horizon 1; the loop over \<open>range(1, budget)\<close> stops at the candidate 2,
  before any candidate exceeds the budget, and \<open>allocate_budget\<close> raises
  \<open>ValueError\<close> (\<open>Could not split budget\<close>). Root construction raises with it, the
  new root alone in the frontier.
\<close>

theorem allocate_budget_fails_although_split_exists:
  "budget cfg_three = 3 \<and> gamma cfg_three = 1/2 \<and> horizon_cfg cfg_three = None
   \<and> horizon 1 (gamma cfg_three) = Inr 0 \<and> 1 * 0 \<le> budget cfg_three
   \<and> horizon 2 (gamma cfg_three) = Inr 1 \<and> 2 * 1 \<le> budget cfg_three
   \<and> horizon 3 (gamma cfg_three) = Inr 1 \<and> 3 * 1 \<le> budget cfg_three
   \<and> allocate_budget cfg_three = Raise ValueError cfg_three
   \<and> make_root env_toy 0 (planner_init cfg_three)
       = Raise ValueError (snd (alloc_node None (planner_init cfg_three))
                             \<lparr>leaves := [next_id (planner_init cfg_three)]\<rparr>)"
proof -
  have c: "budget cfg_three = 3" "gamma cfg_three = 1/2" "horizon_cfg cfg_three = None"
    by (simp_all add: cfg_three_def)
  have m: "make_root env_toy 0 (planner_init cfg_three)
       = Raise ValueError (snd (alloc_node None (planner_init cfg_three))
                             \<lparr>leaves := [next_id (planner_init cfg_three)]\<rparr>)"
    using allocate_budget_three c(3)
    by (simp add: make_root_def alloc_node_def planner_init_def)
  show ?thesis
    unfolding c using m allocate_budget_three c by (simp add: horizon_values_half)
qed

subsection \<open>Rejected rewards\<close>

lemma in_unit_iff: "in_unit r \<longleftrightarrow> (\<exists>x. r = Fin x \<and> 0 \<le> x \<and> x \<le> 1)"
  by (cases r) (simp_all add: in_unit_def)

text \<open>
  Claim C6. For every node and every reward that is not a real number of \<open>[0,1]\<close>,
  \<open>update\<close> raises \<open>ValueError\<close> and the node is as before the call: its count, its
  cumulative reward, its bound \<open>mu_ucb\<close> and its terminal flag are unchanged, and so
  is the whole store.
\<close>

theorem update_rejects_reward:
  assumes "\<And>x. reward = Fin x \<Longrightarrow> x < 0 \<or> 1 < x"
  shows "update orc cfg reward dn nd = Raise ValueError nd
       \<and> update_node orc n reward dn s = Raise ValueError s"
proof -
  have r: "\<not> in_unit reward" using assms by (auto simp: in_unit_iff)
  have a: "update orc cfg reward dn nd = Raise ValueError nd" for cfg nd
    using r by (simp add: update_def)
  have "update_node orc n reward dn s = Raise ValueError (s\<lparr>nodes := (nodes s)(n := nodes s n)\<rparr>)"
    by (simp add: update_node_def a)
  then show ?thesis using a by simp
qed

text \<open>An instance: the reward 2 on a fresh node.\<close>

theorem update_rejects_reward_witness:
  "update orc_toy cfg_six (Fin 2) True (new_node cfg_six None) = Raise ValueError (new_node cfg_six None)
   \<and> update_node orc_toy 0 (Fin 2) True (planner_init cfg_six) = Raise ValueError (planner_init cfg_six)"
proof -
  have h: "x < 0 \<or> 1 < x" if "Fin 2 = Fin x" for x :: real using that by simp
  show ?thesis using update_rejects_reward[of "Fin 2", OF h] by simp
qed

subsection \<open>Planning without an episode count\<close>

lemma config_node_expand_loop [simp]: "config (node_expand_loop n acts s) = config s"
  by (induction acts arbitrary: s) (simp_all add: alloc_node_def set_child_def)

lemma config_node_expand [simp]: "config (node_expand b n s) = config s"
  by (simp add: node_expand_def)

lemma config_prebuild_level [simp]: "config (prebuild_level b ls acc s) = config s"
  by (induction ls arbitrary: acc s) (simp_all add: Let_def)

lemma config_prebuild_levels [simp]: "config (prebuild_levels k b s) = config s"
  by (induction k arbitrary: s) simp_all

lemma plan_no_episodes:
  "episodes (config s) = None \<Longrightarrow> plan fw env orc st s = Some (Raise KeyError s)"
  by (simp add: plan_def)

lemma make_root_with_horizon:
  assumes "horizon_cfg (config s) = Some h"
  shows "\<exists>s'. make_root env e s = Ok (next_id s) s' \<and> config s' = config s"
proof -
  define s2 where "s2 = (snd (alloc_node None s))\<lparr>leaves := [next_id s]\<rparr>"
  have c2: "config s2 = config s" by (simp add: s2_def alloc_node_def)
  have h2: "horizon_cfg (config s2) = Some h" using assms c2 by simp
  have m: "make_root env e s =
      (if \<not> lazy_tree_construction (config s2)
       then (case prebuild_tree (action_space_n env e) s2 of
               Raise e s4 \<Rightarrow> Raise e s4
             | Ok _ s4 \<Rightarrow> Ok (next_id s) s4)
       else Ok (next_id s) s2)"
    using h2 by (simp add: make_root_def alloc_node_def s2_def Let_def)
  have p: "prebuild_tree b s2 = Ok () (prebuild_levels (nat h) b s2)" for b
    using h2 by (simp add: prebuild_tree_def)
  show ?thesis
  proof (cases "lazy_tree_construction (config s2)")
    case True
    with m c2 show ?thesis by simp
  next
    case False
    with m p c2 show ?thesis by simp
  qed
qed

text \<open>
  Claim C10. Only \<open>allocate_budget\<close> writes the entry \<open>episodes\<close>, and \<open>make_root\<close>
  calls it only when no horizon is configured. So with a configured horizon and no
  episode count, root construction succeeds and leaves \<open>episodes\<close> absent, and
  \<open>plan\<close> raises \<open>KeyError\<close> without running an episode, before and after root
  construction.
\<close>

theorem plan_without_episodes:
  assumes "horizon_cfg (config s) = Some h" and "episodes (config s) = None"
  shows "plan fw env orc st s = Some (Raise KeyError s)
       \<and> (\<exists>r s'. make_root env e s = Ok r s' \<and> episodes (config s') = None
              \<and> plan fw env orc st s' = Some (Raise KeyError s'))"
proof -
  from make_root_with_horizon[OF assms(1), of env e]
  obtain s' where m: "make_root env e s = Ok (next_id s) s'" and c: "config s' = config s"
    by (elim exE conjE)
  have n: "episodes (config s') = None" using c assms(2) by simp
  have a: "plan fw env orc st s = Some (Raise KeyError s)"
    by (rule plan_no_episodes[OF assms(2)])
  have b: "plan fw env orc st s' = Some (Raise KeyError s')"
    by (rule plan_no_episodes[OF n])
  show ?thesis using a b m n by (intro conjI exI) 
qed

text \<open>An instance: horizon 2 configured, no episode count.\<close>

theorem plan_without_episodes_witness:
  "horizon_cfg (config (planner_init cfg_fixed_horizon)) = Some 2
   \<and> episodes (config (planner_init cfg_fixed_horizon)) = None
   \<and> plan fw_toy env_toy orc_toy 0 (planner_init cfg_fixed_horizon)
       = Some (Raise KeyError (planner_init cfg_fixed_horizon))
   \<and> (\<exists>r s'. make_root env_toy 0 (planner_init cfg_fixed_horizon) = Ok r s'
              \<and> episodes (config s') = None
              \<and> plan fw_toy env_toy orc_toy 0 s' = Some (Raise KeyError s'))"
proof -
  have h: "horizon_cfg (config (planner_init cfg_fixed_horizon)) = Some 2"
    "episodes (config (planner_init cfg_fixed_horizon)) = None"
    by (simp_all add: planner_init_def cfg_fixed_horizon_def)
  note t = plan_without_episodes[OF h, where fw = fw_toy and env = env_toy and orc = orc_toy
      and st = 0 and e = 0]
  show ?thesis by (rule conjI[OF h(1) conjI[OF h(2) t]])
qed

subsection \<open>Float comparison and ancestors\<close>

lemma fadd_zero_right [simp]: "fadd a (Fin 0) = a"
  by (cases a) simp_all

lemma fless_irrefl [simp]: "\<not> fless a a"
  by (cases a) simp_all

lemma fless_trans: "fless a b \<Longrightarrow> fless b c \<Longrightarrow> fless a c"
  by (cases a; cases b; cases c) simp_all

lemma ancestor_add:
  "ancestor ns n (j + k) = (case ancestor ns n j of None \<Rightarrow> None | Some a \<Rightarrow> ancestor ns a k)"
  by (induction j arbitrary: n) (simp_all split: option.splits)

lemma ancestor_Suc_right:
  "ancestor ns n (Suc k) = (case ancestor ns n k of None \<Rightarrow> None | Some a \<Rightarrow> parent (ns a))"
  using ancestor_add[of ns n k 1] by (simp split: option.splits)

lemma ancestor_prefix:
  assumes "ancestor ns n d = Some r" "k \<le> d"
  shows "\<exists>a. ancestor ns n k = Some a"
proof -
  from assms(2) obtain j where "d = k + j" using le_Suc_ex by blast
  with assms(1) show ?thesis by (auto simp: ancestor_add split: option.splits)
qed

lemma at_depth_Suc:
  "at_depth ns n (Suc d) \<longleftrightarrow> (\<exists>p. parent (ns n) = Some p \<and> at_depth ns p d)"
  by (auto simp: at_depth_def split: option.splits)

lemma at_depth_0: "at_depth ns n 0 \<longleftrightarrow> parent (ns n) = None"
  by (simp add: at_depth_def)

subsection \<open>The first value pass\<close>

lemma nodes_set_value:
  "nodes (set_value n v s) = (nodes s)(n := (nodes s n)\<lparr>node_value := v\<rparr>)"
  by (simp add: set_value_def)

lemma set_value_fields [simp]:
  "parent (nodes (set_value n v s) m) = parent (nodes s m)"
  "mu_ucb (nodes (set_value n v s) m) = mu_ucb (nodes s m)"
  "done_flag (nodes (set_value n v s) m) = done_flag (nodes s m)"
  "children (nodes (set_value n v s) m) = children (nodes s m)"
  "node_value (nodes (set_value n v s) n) = v"
  "config (set_value n v s) = config s"
  by (simp_all add: set_value_def)

lemma set_value_twice [simp]: "set_value n v (set_value n w s) = set_value n v s"
  by (simp add: set_value_def)

lemma ancestor_cong:
  assumes "\<And>m. parent (ns' m) = parent (ns m)"
  shows "ancestor ns' n k = ancestor ns n k"
  by (induction k arbitrary: n) (simp_all add: assms split: option.splits)

lemma ancestor_set_value [simp]:
  "ancestor (nodes (set_value n v s)) m k = ancestor (nodes s) m k"
  by (rule ancestor_cong) simp

lemma upto_0_1: "[0 .. (1::int)] = [0, 1]"
  by (simp add: upto_rec1)

lemma make_root_depth_one:
  "make_root env_toy 0 (planner_init cfg_depth_one) = Ok 0 tree_one"
  by (simp add: make_root_def alloc_node_def planner_init_def cfg_depth_one_def prebuild_tree_def
      env_toy_def node_expand_def upto_0_1 set_child_def tree_one_def Let_def new_node_def
      fun_upd_twist numeral_2_eq_2 numeral_3_eq_3)

lemma at_depth_tree_one: "at_depth (nodes tree_one) 2 1"
  by (simp add: at_depth_def tree_one_def new_node_def)

lemma compute_all_tree_one:
  "compute_all [(0, []), (1, [0]), (2, [1])] tree_one = Ok () tree_one_valued"
  by (simp add: compute_u_values_def tree_one_def tree_one_valued_def cfg_depth_one_def
      new_node_def set_value_def Let_def)

subsection \<open>Sharpening\<close>

lemma py_min_cases: "py_min a b = a \<or> (py_min a b = b \<and> fless b a)"
  by (simp add: py_min_def)

lemma foldl_py_min_snoc: "foldl py_min mv (xs @ [x]) = py_min (foldl py_min mv xs) x"
  by simp

text \<open>The running minimum is one of the values seen, and none of them is strictly below it.\<close>

lemma foldl_py_min_least:
  "foldl py_min mv xs \<in> set (mv # xs) \<and> (\<forall>y\<in>set (mv # xs). \<not> fless y (foldl py_min mv xs))"
proof (induction xs rule: rev_induct)
  case Nil
  show ?case by simp
next
  case (snoc x xs)
  let ?c = "foldl py_min mv xs"
  show ?case
  proof (cases "fless x ?c")
    case True
    then have e: "foldl py_min mv (xs @ [x]) = x" by (simp add: py_min_def)
    have "\<not> fless y x" if "y \<in> set (mv # xs)" for y
    proof
      assume "fless y x"
      then have "fless y ?c" using True by (rule fless_trans)
      with snoc that show False by blast
    qed
    then show ?thesis unfolding e by auto
  next
    case False
    then have e: "foldl py_min mv (xs @ [x]) = ?c" by (simp add: py_min_def)
    show ?thesis unfolding e using snoc False by auto
  qed
qed

lemma foldl_py_min_below: "foldl py_min mv xs = mv \<or> fless (foldl py_min mv xs) mv"
proof (induction xs rule: rev_induct)
  case Nil
  show ?case by simp
next
  case (snoc x xs)
  let ?c = "foldl py_min mv xs"
  show ?case
  proof (cases "fless x ?c")
    case True
    then have e: "foldl py_min mv (xs @ [x]) = x" by (simp add: py_min_def)
    from snoc True have "fless x mv" by (auto intro: fless_trans)
    then show ?thesis unfolding e by simp
  next
    case False
    then have e: "foldl py_min mv (xs @ [x]) = ?c" by (simp add: py_min_def)
    show ?thesis unfolding e using snoc by simp
  qed
qed

text \<open>
  The loop of \<open>sharpen_b_values\<close> returns on every node that has a depth: it folds
  \<open>min\<close> over the values of the node and of its ancestors below the root.
\<close>

lemma sharpen_loop_foldl:
  assumes "at_depth ns n d"
  shows "sharpen_loop ns n mv =
     Some (foldl py_min mv (map (\<lambda>k. node_value (ns (the (ancestor ns n k)))) [0..<d]))"
  using assms
proof (induction d arbitrary: n mv)
  case 0
  then have "parent (ns n) = None" by (simp add: at_depth_0)
  then show ?case by (subst sharpen_loop.simps) simp
next
  case (Suc d)
  then obtain p where p: "parent (ns n) = Some p" and dp: "at_depth ns p d"
    by (auto simp: at_depth_Suc)
  have idx: "[0..<Suc d] = 0 # map Suc [0..<d]"
    by (simp add: upt_conv_Cons map_Suc_upt del: upt_Suc)
  have "sharpen_loop ns n mv = sharpen_loop ns p (py_min mv (node_value (ns n)))"
    by (subst sharpen_loop.simps) (simp add: p)
  also have "\<dots> = Some (foldl py_min (py_min mv (node_value (ns n)))
       (map (\<lambda>k. node_value (ns (the (ancestor ns p k)))) [0..<d]))"
    by (rule Suc.IH[OF dp])
  finally show ?case
    unfolding idx by (simp add: p comp_def del: upt_Suc)
qed

text \<open>
  Claim C3, as amended. On a node at depth \<open>d\<close>, \<open>sharpen_b_values\<close> returns a
  score \<open>r\<close> that is at most the node's own value (equal to it or strictly less).
  Under the Kullback-Leibler bound it is the node's own value. Under any other bound it
  is the minimum of the values of the node and of its ancestors below the root: it is
  one of these values and none of them is strictly less. The root's value does not
  enter the minimum.
\<close>

theorem sharpen_b_values_minimum:
  assumes "at_depth (nodes s) n d"
  shows "\<exists>r. sharpen_b_values s n = Some r
           \<and> (r = node_value (nodes s n) \<or> fless r (node_value (nodes s n)))
           \<and> (upper_bound (config s) = ''kullback-leibler'' \<longrightarrow> r = node_value (nodes s n))
           \<and> (upper_bound (config s) \<noteq> ''kullback-leibler'' \<longrightarrow>
                (r = node_value (nodes s n)
                  \<or> (\<exists>k<d. r = node_value (nodes s (the (ancestor (nodes s) n k)))))
                \<and> (\<forall>k<d. \<not> fless (node_value (nodes s (the (ancestor (nodes s) n k)))) r))"
proof (cases "upper_bound (config s) = ''kullback-leibler''")
  case True
  then show ?thesis by (simp add: sharpen_b_values_def)
next
  case False
  let ?v = "node_value (nodes s n)"
  let ?xs = "map (\<lambda>k. node_value (nodes s (the (ancestor (nodes s) n k)))) [0..<d]"
  let ?r = "foldl py_min ?v ?xs"
  have r: "sharpen_b_values s n = Some ?r"
    using False sharpen_loop_foldl[OF assms, of ?v] by (simp add: sharpen_b_values_def)
  have below: "?r = ?v \<or> fless ?r ?v" by (rule foldl_py_min_below)
  from foldl_py_min_least[of ?v ?xs]
  have mem: "?r \<in> set (?v # ?xs)" and least: "\<forall>y\<in>set (?v # ?xs). \<not> fless y ?r" by simp_all
  from mem have m: "?r = ?v \<or> (\<exists>k<d. ?r = node_value (nodes s (the (ancestor (nodes s) n k))))"
    by auto
  from least have l: "\<forall>k<d. \<not> fless (node_value (nodes s (the (ancestor (nodes s) n k)))) ?r"
    by auto
  show ?thesis using r below m l False by blast
qed

text \<open>
  An instance at depth three, under either bound. Along the chain the values are 15/8
  at the leaf, 7/4 at its parent and 3/2 at the child of the root; the root has the
  value 1. Under the Hoeffding bound the score is 3/2, the value of the ancestor two
  steps above the leaf; under the Kullback-Leibler bound it is the leaf's own 15/8.
\<close>

lemma tree_chain_values:
  "ancestor (nodes tree_chain) 3 0 = Some 3"
  "ancestor (nodes tree_chain) 3 1 = Some 2"
  "ancestor (nodes tree_chain) 3 2 = Some 1"
  "ancestor (nodes tree_chain) 3 3 = Some 0"
  "node_value (nodes tree_chain 3) = Fin (15/8)"
  "node_value (nodes tree_chain 2) = Fin (7/4)"
  "node_value (nodes tree_chain 1) = Fin (3/2)"
  "node_value (nodes tree_chain 0) = Fin 1"
  "upper_bound (config tree_chain) = ''hoeffding''"
  by (simp_all add: tree_chain_def cfg_chain_def new_node_def numeral_2_eq_2 numeral_3_eq_3)

lemma at_depth_tree_chain: "at_depth (nodes tree_chain) 3 3"
  by (simp add: at_depth_def tree_chain_values) (simp add: tree_chain_def new_node_def)

theorem sharpen_b_values_minimum_witness:
  "at_depth (nodes tree_chain) 3 3
   \<and> upper_bound (config tree_chain) \<noteq> ''kullback-leibler''
   \<and> node_value (nodes tree_chain 3) = Fin (15/8)
   \<and> node_value (nodes tree_chain (the (ancestor (nodes tree_chain) 3 1))) = Fin (7/4)
   \<and> node_value (nodes tree_chain (the (ancestor (nodes tree_chain) 3 2))) = Fin (3/2)
   \<and> node_value (nodes tree_chain (the (ancestor (nodes tree_chain) 3 3))) = Fin 1
   \<and> sharpen_b_values tree_chain 3 = Some (Fin (3/2))
   \<and> at_depth (nodes tree_chain_kl) 3 3
   \<and> upper_bound (config tree_chain_kl) = ''kullback-leibler''
   \<and> sharpen_b_values tree_chain_kl 3 = Some (Fin (15/8))"
proof -
  let ?v = "\<lambda>k. node_value (nodes tree_chain (the (ancestor (nodes tree_chain) 3 k)))"
  have h: "upper_bound (config tree_chain) \<noteq> ''kullback-leibler''"
    by (simp add: tree_chain_values)
  have v: "?v 0 = Fin (15/8)" "?v 1 = Fin (7/4)" "?v 2 = Fin (3/2)" "?v 3 = Fin 1"
    by (simp_all only: tree_chain_values option.sel)
  from sharpen_b_values_minimum[OF at_depth_tree_chain]
  obtain r where r: "sharpen_b_values tree_chain 3 = Some r"
    and imp: "upper_bound (config tree_chain) \<noteq> ''kullback-leibler'' \<longrightarrow>
        (r = node_value (nodes tree_chain 3) \<or> (\<exists>k<3. r = ?v k))
        \<and> (\<forall>k<3. \<not> fless (?v k) r)"
    by blast
  from imp h have m: "r = node_value (nodes tree_chain 3) \<or> (\<exists>k<3. r = ?v k)"
    and l: "\<forall>k<3. \<not> fless (?v k) r"
    by blast+
  have k3: "k < 3 \<longleftrightarrow> k = 0 \<or> k = 1 \<or> k = 2" for k :: nat by auto
  from m have "r = Fin (15/8) \<or> r = Fin (7/4) \<or> r = Fin (3/2)"
    unfolding k3 using v by (auto simp: tree_chain_values)
  moreover have "\<not> fless (Fin (3/2)) r"
  proof -
    have "(2::nat) < 3" by simp
    with l have "\<not> fless (?v 2) r" by blast
    then show ?thesis unfolding v .
  qed
  ultimately have "r = Fin (3/2)" by auto
  with r have a: "sharpen_b_values tree_chain 3 = Some (Fin (3/2))" by simp
  have d: "at_depth (nodes tree_chain_kl) 3 3"
    using at_depth_tree_chain by (simp add: tree_chain_kl_def)
  have k: "upper_bound (config tree_chain_kl) = ''kullback-leibler''"
    by (simp add: tree_chain_kl_def)
  have w: "node_value (nodes tree_chain_kl 3) = Fin (15/8)"
    by (simp add: tree_chain_kl_def tree_chain_values)
  from sharpen_b_values_minimum[OF d]
  obtain r' where r': "sharpen_b_values tree_chain_kl 3 = Some r'"
    and imp': "upper_bound (config tree_chain_kl) = ''kullback-leibler'' \<longrightarrow>
        r' = node_value (nodes tree_chain_kl 3)"
    by blast
  from r' imp' k w have b: "sharpen_b_values tree_chain_kl 3 = Some (Fin (15/8))"
    by simp
  show ?thesis
    using at_depth_tree_chain h v(2,3,4) tree_chain_values(5) a d k b by (simp only: simp_thms)
qed

lemma at_depth_tree_one_valued: "at_depth (nodes tree_one_valued) 2 1"
  by (simp add: at_depth_def tree_one_valued_def tree_one_def new_node_def set_value_def)

lemma tree_one_valued_values:
  "node_value (nodes tree_one_valued 0) = Fin 1"
  "node_value (nodes tree_one_valued 2) = PInf"
  "upper_bound (config tree_one_valued) = ''hoeffding''"
  "ancestor (nodes tree_one_valued) 2 1 = Some 0"
  by (simp_all add: tree_one_valued_def tree_one_def set_value_def cfg_depth_one_def new_node_def)

lemma sharpen_tree_one_valued: "sharpen_b_values tree_one_valued 2 = Some PInf"
  using sharpen_loop_foldl[OF at_depth_tree_one_valued, of PInf]
  by (simp add: sharpen_b_values_def tree_one_valued_values py_min_def)

text \<open>
  Claim C3 as stated fails: on the tree that root construction builds and the first
  value pass values, the sharpened score of the leaf 2 is infinite, while its ancestor
  the root has the value 1, strictly less.
\<close>

theorem sharpen_b_values_skips_root:
  "make_root env_toy 0 (planner_init cfg_depth_one) = Ok 0 tree_one
   \<and> compute_all [(0, []), (1, [0]), (2, [1])] tree_one = Ok () tree_one_valued
   \<and> upper_bound (config tree_one_valued) = ''hoeffding''
   \<and> ancestor (nodes tree_one_valued) 2 1 = Some 0
   \<and> node_value (nodes tree_one_valued 0) = Fin 1
   \<and> node_value (nodes tree_one_valued 2) = PInf
   \<and> sharpen_b_values tree_one_valued 2 = Some PInf
   \<and> fless (Fin 1) PInf"
  by (simp only: make_root_depth_one compute_all_tree_one tree_one_valued_values
      sharpen_tree_one_valued fless.simps simp_thms)

subsection \<open>The fallback for an absent action\<close>

lemma make_root_lazy: "make_root env_narrow 0 (planner_init cfg_lazy) = Ok 0 tree_lazy"
  by (simp add: make_root_def alloc_node_def planner_init_def cfg_lazy_def tree_lazy_def Let_def
      fun_upd_idem)

lemma rollout_lazy:
  "rollout env_narrow orc_toy 0 0 [0, 0] (set_value 0 (Fin 1) tree_lazy) = Raise TypeError tree_lazy_expanded"
  by (simp add: env_narrow_def tree_lazy_def tree_lazy_expanded_def expand_def available_actions_def
      alloc_node_def set_child_def set_value_def new_node_def cfg_lazy_def Let_def
      fun_upd_twist numeral_2_eq_2 numeral_3_eq_3)

text \<open>
  Claim C5 does not hold of the code. Under lazy construction the first episode pads
  the best sequence with the default action 0; the root is expanded with the available
  actions 1 and 2, so action 0 is absent from its non-empty \<open>children\<close>, and the
  fallback \<open>node.children.keys()[0]\<close> raises \<open>TypeError\<close> instead of substituting
  the first child: the episode stops there.
\<close>

theorem run_raises_on_absent_action:
  "make_root env_narrow 0 (planner_init cfg_lazy) = Ok 0 tree_lazy
   \<and> run fw_toy env_narrow orc_toy 0 tree_lazy = Some (Raise TypeError tree_lazy_expanded)
   \<and> map fst (children (nodes tree_lazy_expanded 0)) = [1, 2]"
proof -
  have c: "compute_all (breadth_first_search fw_toy tree_lazy) tree_lazy
      = Ok () (set_value 0 (Fin 1) tree_lazy)"
    by (simp add: fw_toy_def tree_lazy_def compute_u_values_def cfg_lazy_def new_node_def Let_def
        set_value_def)
  have s: "those (map (sharpen_b_values (set_value 0 (Fin 1) tree_lazy))
                    (leaves (set_value 0 (Fin 1) tree_lazy))) = Some [Fin 1]"
    by (simp add: sharpen_b_values_def tree_lazy_def set_value_def cfg_lazy_def new_node_def
        sharpen_loop.simps)
  have p: "pad_sequence (config tree_lazy)
        (path fw_toy (set_value 0 (Fin 1) tree_lazy) (leaves (set_value 0 (Fin 1) tree_lazy) ! 0))
      = Inr [0, 0]"
    by (simp add: pad_sequence_def py_take_def set_value_def tree_lazy_def cfg_lazy_def fw_toy_def
        numeral_2_eq_2)
  have r: "root_node (set_value 0 (Fin 1) tree_lazy) = 0"
    by (simp add: set_value_def tree_lazy_def)
  have "run fw_toy env_narrow orc_toy 0 tree_lazy = Some (Raise TypeError tree_lazy_expanded)"
    unfolding run_def c by (simp add: s argmax_def p r rollout_lazy del: rollout.simps)
  moreover have "map fst (children (nodes tree_lazy_expanded 0)) = [1, 2]"
    by (simp add: tree_lazy_expanded_def)
  ultimately show ?thesis using make_root_lazy by simp
qed

subsection \<open>Expansion and the frontier\<close>

lemma dict_set_fresh: "k \<notin> fst ` set kvs \<Longrightarrow> dict_set k v kvs = kvs @ [(k, v)]"
  by (induction kvs) auto

lemma update_structure:
  assumes "update orc cfg reward dn nd = Ok u nd'"
  shows "parent nd' = parent nd \<and> children nd' = children nd"
  using assms
  by (auto simp: update_def mark_done_def Let_def split: if_splits option.splits)

lemma add_child_fields:
  "config (add_child n a s) = config s"
  "leaves (add_child n a s) = leaves s"
  "root_node (add_child n a s) = root_node s"
  "next_id (add_child n a s) = Suc (next_id s)"
  by (simp_all add: add_child_def set_child_def alloc_node_def)

lemma add_child_nodes:
  assumes "n < next_id s"
  shows "nodes (add_child n a s) =
     (nodes s)(next_id s := new_node (config s) (Some n),
               n := (nodes s n)\<lparr>children := dict_set a (next_id s) (children (nodes s n))\<rparr>)"
  using assms by (simp add: add_child_def set_child_def alloc_node_def)


lemma update_node_structure:
  assumes "update_node orc c reward dn s = Ok u s'"
  shows "config s' = config s \<and> leaves s' = leaves s \<and> root_node s' = root_node s
       \<and> next_id s' = next_id s
       \<and> (\<forall>m. m \<noteq> c \<longrightarrow> nodes s' m = nodes s m)
       \<and> parent (nodes s' c) = parent (nodes s c)
       \<and> children (nodes s' c) = children (nodes s c)"
proof -
  from assms obtain nd where u: "update orc (config s) reward dn (nodes s c) = Ok () nd"
    and s': "s' = s\<lparr>nodes := (nodes s)(c := nd)\<rparr>"
    by (auto simp: update_node_def split: outcome.splits)
  from update_structure[OF u] s' show ?thesis by simp
qed

lemma expand_loop_False:
  "expand_loop env orc st False n acts s = Ok () (node_expand_loop n acts s)"
  by (induction acts arbitrary: s) (simp_all add: alloc_node_def Let_def)

text \<open>What a successful expansion loop leaves behind, whether or not it samples the children.\<close>

lemma expand_loop_spec:
  assumes "expand_loop env orc st upd n acts s = Ok u s'"
    and "n < next_id s" "distinct acts" "set acts \<inter> fst ` set (children (nodes s n)) = {}"
  shows "config s' = config s \<and> leaves s' = leaves s \<and> root_node s' = root_node s
       \<and> next_id s' = next_id s + length acts
       \<and> nodes s' n = (nodes s n)\<lparr>children := children (nodes s n)
                        @ zip acts [next_id s ..< next_id s + length acts]\<rparr>
       \<and> (\<forall>m. m \<noteq> n \<and> \<not> (next_id s \<le> m \<and> m < next_id s + length acts)
              \<longrightarrow> nodes s' m = nodes s m)
       \<and> (\<forall>m. next_id s \<le> m \<and> m < next_id s + length acts
              \<longrightarrow> parent (nodes s' m) = Some n \<and> children (nodes s' m) = [])"
  using assms
proof (induction acts arbitrary: s)
  case Nil
  then show ?case by auto
next
  case (Cons a acts)
  let ?N = "next_id s"
  let ?s2 = "add_child n a s"
  have a: "a \<notin> fst ` set (children (nodes s n))" using Cons.prems(4) by auto
  have n2: "nodes ?s2 = (nodes s)(?N := new_node (config s) (Some n),
               n := (nodes s n)\<lparr>children := children (nodes s n) @ [(a, ?N)]\<rparr>)"
    using add_child_nodes[OF Cons.prems(2)] dict_set_fresh[OF a] by simp
  have nN: "n \<noteq> ?N" using Cons.prems(2) by simp
  obtain s3 where rest: "expand_loop env orc st upd n acts s3 = Ok u s'"
    and f3: "config s3 = config s" "leaves s3 = leaves s" "root_node s3 = root_node s"
      "next_id s3 = Suc ?N"
    and o3: "\<And>m. m \<noteq> ?N \<Longrightarrow> nodes s3 m = nodes ?s2 m"
    and c3: "parent (nodes s3 ?N) = Some n" "children (nodes s3 ?N) = []"
  proof (cases upd)
    case False
    with Cons.prems(1) have "expand_loop env orc st upd n acts ?s2 = Ok u s'"
      by (simp add: add_child_def alloc_node_def Let_def)
    then show ?thesis
      using that[of ?s2] nN by (simp add: add_child_fields n2 new_node_def)
  next
    case True
    obtain st' reward dn where stp: "step env st a = (st', reward, dn)"
      by (cases "step env st a") auto
    from Cons.prems(1) True stp obtain s3 where
      u: "update_node orc ?N reward dn ?s2 = Ok () s3"
      and r: "expand_loop env orc st upd n acts s3 = Ok u s'"
      by (auto simp: add_child_def alloc_node_def Let_def split: outcome.splits)
    from update_node_structure[OF u] show ?thesis
      using that[of s3] r nN by (simp add: add_child_fields n2 new_node_def)
  qed
  have c3n: "children (nodes s3 n) = children (nodes s n) @ [(a, ?N)]"
    using o3[of n] nN by (simp add: n2)
  have p1: "n < next_id s3" using Cons.prems(2) f3 by simp
  have p2: "distinct acts" using Cons.prems(3) by simp
  have p3: "set acts \<inter> fst ` set (children (nodes s3 n)) = {}"
    unfolding c3n using Cons.prems(3,4) by auto
  note IH = Cons.IH[OF rest p1 p2 p3]
  have z: "(a, ?N) # zip acts [Suc ?N ..< Suc (?N + length acts)]
         = zip (a # acts) [?N ..< ?N + length (a # acts)]"
    by (simp add: upt_conv_Cons del: upt_Suc)
  have A: "nodes s' n = (nodes s n)\<lparr>children := children (nodes s n)
                        @ zip (a # acts) [?N ..< ?N + length (a # acts)]\<rparr>"
    using IH o3[of n] nN z[symmetric] by (simp add: f3 n2 del: upt_Suc)
  have B: "nodes s' m = nodes s m"
    if "m \<noteq> n \<and> \<not> (?N \<le> m \<and> m < ?N + length (a # acts))" for m
  proof -
    from that have "m \<noteq> ?N" "\<not> (next_id s3 \<le> m \<and> m < next_id s3 + length acts)"
      by (auto simp: f3)
    with IH that o3[of m] show ?thesis by (simp add: n2)
  qed
  have C: "parent (nodes s' m) = Some n \<and> children (nodes s' m) = []"
    if "?N \<le> m \<and> m < ?N + length (a # acts)" for m
  proof (cases "m = ?N")
    case True
    then have "nodes s' m = nodes s3 m" using IH nN by (simp add: f3)
    with True c3 show ?thesis by simp
  next
    case False
    with that have "next_id s3 \<le> m \<and> m < next_id s3 + length acts" by (simp add: f3)
    with IH show ?thesis by blast
  qed
  show ?case using IH A B C by (simp add: f3)
qed




lemma frontier_after_expansion:
  assumes inv: "frontier_invariant s" and ok: "store_ok s" and leaf: "n \<in> set (leaves s)"
    and acts: "distinct acts" "acts \<noteq> []"
    and E1: "root_node s' = root_node s"
    and E2: "next_id s' = next_id s + length acts"
    and E3: "children (nodes s' n) = zip acts [next_id s ..< next_id s + length acts]"
    and E4: "\<And>m. m \<noteq> n \<Longrightarrow> m < next_id s \<Longrightarrow> nodes s' m = nodes s m"
    and E5: "\<And>m. next_id s \<le> m \<Longrightarrow> m < next_id s + length acts \<Longrightarrow> children (nodes s' m) = []"
    and E6: "leaves s' = remove1 n (leaves s) @ [next_id s ..< next_id s + length acts]"
  shows "frontier_invariant s' \<and> store_ok s'"
proof -
  let ?N = "next_id s"
  let ?fresh = "[?N ..< ?N + length acts]"
  have fr: "set (leaves s) = {m. reachable s m \<and> children (nodes s m) = []}"
    and dl: "distinct (leaves s)"
    using inv by (simp_all add: frontier_invariant_def)
  have rn: "reachable s n" and cn: "children (nodes s n) = []" using leaf fr by auto
  have old: "m < ?N" if "reachable s m" for m using ok that by (simp add: store_ok_def)
  have up: "reachable s' m" if "reachable s m" for m
    using that
  proof (induction rule: reachable.induct)
    case root
    show ?case using reachable.root[of s'] E1 by simp
  next
    case (child p a c)
    have "p \<noteq> n" using child.hyps(2) cn by auto
    then have "nodes s' p = nodes s p" using old[OF child.hyps(1)] by (rule E4)
    with child.hyps(2) have "map_of (children (nodes s' p)) a = Some c" by simp
    with child.IH show ?case by (rule reachable.child)
  qed
  have down: "reachable s m \<or> m \<in> set ?fresh" if "reachable s' m" for m
    using that
  proof (induction rule: reachable.induct)
    case root
    show ?case using reachable.root[of s] E1 by simp
  next
    case (child p a c)
    from child.IH show ?case
    proof
      assume "p \<in> set ?fresh"
      then have "children (nodes s' p) = []" using E5 by simp
      with child.hyps(2) show ?thesis by simp
    next
      assume rp: "reachable s p"
      show ?thesis
      proof (cases "p = n")
        case True
        with child.hyps(2) E3 have "(a, c) \<in> set (zip acts ?fresh)"
          by (auto dest: map_of_SomeD)
        then have "c \<in> set ?fresh" by (rule set_zip_rightD)
        then show ?thesis by simp
      next
        case False
        then have "nodes s' p = nodes s p" using old[OF rp] by (rule E4)
        with child.hyps(2) have "map_of (children (nodes s p)) a = Some c" by simp
        with rp have "reachable s c" by (rule reachable.child)
        then show ?thesis by simp
      qed
    qed
  qed
  have new: "reachable s' m" if "m \<in> set ?fresh" for m
  proof -
    define i where "i = m - ?N"
    from that have i: "i < length acts" "m = ?fresh ! i"
      by (auto simp: i_def)
    have "map_of (zip acts ?fresh) (acts ! i) = Some (?fresh ! i)"
      using acts(1) i(1) by (intro map_of_zip_nth) simp_all
    then have "map_of (children (nodes s' n)) (acts ! i) = Some m"
      using E3 i(2) by simp
    with up[OF rn] show ?thesis by (rule reachable.child)
  qed
  have reach: "reachable s' m \<longleftrightarrow> reachable s m \<or> m \<in> set ?fresh" for m
    using up down new by blast
  have nonempty: "children (nodes s' n) \<noteq> []"
    using E3 acts(2) by (cases acts) (simp_all add: upt_conv_Cons del: upt_Suc)
  have ch: "children (nodes s' m) = children (nodes s m)" if "reachable s m" "m \<noteq> n" for m
    using E4[OF that(2) old[OF that(1)]] by simp
  have "{m. reachable s' m \<and> children (nodes s' m) = []}
      = ({m. reachable s m \<and> children (nodes s m) = []} - {n}) \<union> set ?fresh"
  proof (intro set_eqI iffI)
    fix m
    assume "m \<in> {m. reachable s' m \<and> children (nodes s' m) = []}"
    then have r: "reachable s' m" and c: "children (nodes s' m) = []" by simp_all
    from r reach consider "m \<in> set ?fresh" | "reachable s m" "m \<notin> set ?fresh" by blast
    then show "m \<in> ({m. reachable s m \<and> children (nodes s m) = []} - {n}) \<union> set ?fresh"
    proof cases
      case 1
      then show ?thesis by simp
    next
      case 2
      have "m \<noteq> n" using c nonempty by auto
      with 2 c ch[of m] show ?thesis by simp
    qed
  next
    fix m
    assume "m \<in> ({m. reachable s m \<and> children (nodes s m) = []} - {n}) \<union> set ?fresh"
    then consider "m \<in> set ?fresh" | "reachable s m" "children (nodes s m) = []" "m \<noteq> n"
      by blast
    then show "m \<in> {m. reachable s' m \<and> children (nodes s' m) = []}"
    proof cases
      case 1
      then show ?thesis using new E5 by simp
    next
      case 2
      then show ?thesis using up ch by simp
    qed
  qed
  moreover have "set (leaves s') = (set (leaves s) - {n}) \<union> set ?fresh"
    unfolding E6 using dl by simp
  ultimately have A: "set (leaves s') = {m. reachable s' m \<and> children (nodes s' m) = []}"
    using fr by simp
  have "set (remove1 n (leaves s)) \<inter> set ?fresh = {}"
  proof -
    have "m < ?N" if "m \<in> set (remove1 n (leaves s))" for m
      using that fr old by (auto dest: notin_set_remove1)
    then show ?thesis by fastforce
  qed
  then have B: "distinct (leaves s')"
    unfolding E6 using dl by simp
  have C: "store_ok s'"
    unfolding store_ok_def using reach old E2 by fastforce
  from A B C show ?thesis by (simp add: frontier_invariant_def)
qed

text \<open>
  Claim C7, as amended. Let the frontier invariant hold of a well-formed store, and let
  \<open>n\<close> be a node of the frontier and the available actions be distinct. Then
  \<open>expand\<close> returns when it does not sample the children, and whenever it returns
  the node \<open>n\<close> has exactly one child per action, in the order of the actions, the
  children being the freshly allocated nodes; \<open>n\<close> is removed from \<open>leaves\<close> and
  the new children are appended to it, the other members staying in place; every other
  node allocated before is unchanged; each new child has \<open>n\<close> as its parent and no
  children. When there is at least one action, the frontier invariant holds again.
\<close>

theorem expand_frontier:
  assumes inv: "frontier_invariant s" and ok: "store_ok s" and leaf: "n \<in> set (leaves s)"
    and acts: "distinct (available_actions env st)"
  shows "(\<not> upd \<longrightarrow> (\<exists>s'. expand env orc (Some st) upd n s = Ok () s'))
       \<and> (\<forall>s'. expand env orc (Some st) upd n s = Ok () s' \<longrightarrow>
            map fst (children (nodes s' n)) = available_actions env st
          \<and> map snd (children (nodes s' n))
              = [next_id s ..< next_id s + length (available_actions env st)]
          \<and> next_id s' = next_id s + length (available_actions env st)
          \<and> leaves s' = remove1 n (leaves s)
              @ [next_id s ..< next_id s + length (available_actions env st)]
          \<and> (\<forall>m. m \<noteq> n \<and> m < next_id s \<longrightarrow> nodes s' m = nodes s m)
          \<and> (\<forall>c. next_id s \<le> c \<and> c < next_id s + length (available_actions env st)
                \<longrightarrow> parent (nodes s' c) = Some n \<and> children (nodes s' c) = [])
          \<and> (available_actions env st \<noteq> [] \<longrightarrow> frontier_invariant s' \<and> store_ok s'))"
proof -
  let ?acts = "available_actions env st"
  let ?N = "next_id s"
  let ?fresh = "[?N ..< ?N + length ?acts]"
  have fr: "set (leaves s) = {m. reachable s m \<and> children (nodes s m) = []}"
    using inv by (simp add: frontier_invariant_def)
  have rn: "reachable s n" and cn: "children (nodes s n) = []" using leaf fr by auto
  have nN: "n < ?N" using ok rn by (simp add: store_ok_def)
  have disj: "set ?acts \<inter> fst ` set (children (nodes s n)) = {}" using cn by simp
  have first: "\<exists>s'. expand env orc (Some st) upd n s = Ok () s'" if "\<not> upd"
  proof -
    have l: "expand_loop env orc st upd n ?acts s = Ok () (node_expand_loop n ?acts s)"
      using that expand_loop_False by simp
    have "leaves (node_expand_loop n ?acts s) = leaves s"
      using expand_loop_spec[OF l nN acts disj] by simp
    with leaf l show ?thesis by (simp add: expand_def)
  qed
  have second: "map fst (children (nodes s' n)) = ?acts
          \<and> map snd (children (nodes s' n)) = ?fresh
          \<and> next_id s' = ?N + length ?acts
          \<and> leaves s' = remove1 n (leaves s) @ ?fresh
          \<and> (\<forall>m. m \<noteq> n \<and> m < ?N \<longrightarrow> nodes s' m = nodes s m)
          \<and> (\<forall>c. ?N \<le> c \<and> c < ?N + length ?acts
                \<longrightarrow> parent (nodes s' c) = Some n \<and> children (nodes s' c) = [])
          \<and> (?acts \<noteq> [] \<longrightarrow> frontier_invariant s' \<and> store_ok s')"
    if res: "expand env orc (Some st) upd n s = Ok () s'" for s'
  proof -
    from res obtain s1 where l: "expand_loop env orc st upd n ?acts s = Ok () s1"
      and s': "s' = s1\<lparr>leaves := remove1 n (leaves s1) @ map snd (children (nodes s1 n))\<rparr>"
      by (auto simp: expand_def split: outcome.splits if_splits)
    note sp = expand_loop_spec[OF l nN acts disj]
    have c1: "children (nodes s1 n) = zip ?acts ?fresh" using sp cn by simp
    have m1: "map snd (children (nodes s1 n)) = ?fresh" unfolding c1 by simp
    have m2: "map fst (children (nodes s1 n)) = ?acts" unfolding c1 by simp
    have E1: "root_node s' = root_node s" using sp s' by simp
    have E2: "next_id s' = ?N + length ?acts" using sp s' by simp
    have E3: "children (nodes s' n) = zip ?acts ?fresh" using c1 s' by simp
    have E4: "nodes s' m = nodes s m" if "m \<noteq> n" "m < ?N" for m
      using sp s' that by simp
    have E5: "parent (nodes s' m) = Some n \<and> children (nodes s' m) = []"
      if "?N \<le> m" "m < ?N + length ?acts" for m
      using sp s' that by simp
    have E6: "leaves s' = remove1 n (leaves s) @ ?fresh"
      using sp s' m1 by simp
    have E5c: "children (nodes s' m) = []" if "?N \<le> m" "m < ?N + length ?acts" for m
      using E5[OF that] by simp
    have pres: "frontier_invariant s' \<and> store_ok s'" if ne: "?acts \<noteq> []"
      by (rule frontier_after_expansion[OF inv ok leaf acts ne E1 E2 E3 E4 E5c E6])
    show ?thesis
      using m1 m2 s' E2 E4 E5 E6 pres by simp
  qed
  from first second show ?thesis by blast
qed

lemma tree_one_nodes:
  "root_node tree_one = 0" "next_id tree_one = 3" "leaves tree_one = [1, 2]"
  "children (nodes tree_one 0) = [(0, 1), (1, 2)]"
  "children (nodes tree_one 1) = []"
  "children (nodes tree_one (Suc 0)) = []"
  "children (nodes tree_one 2) = []"
  by (simp_all add: tree_one_def new_node_def)

lemma reachable_tree_one: "reachable tree_one m \<longleftrightarrow> m = 0 \<or> m = 1 \<or> m = 2"
proof
  assume "reachable tree_one m"
  then show "m = 0 \<or> m = 1 \<or> m = 2"
  proof (induction rule: reachable.induct)
    case root
    show ?case by (simp add: tree_one_nodes)
  next
    case (child p a c)
    from child.IH child.hyps(2) show ?case
      by (auto simp: tree_one_nodes split: if_splits)
  qed
next
  have r0: "reachable tree_one 0" using reachable.root[of tree_one] by (simp add: tree_one_nodes)
  have r1: "reachable tree_one 1"
    by (rule reachable.child[OF r0, of 0]) (simp add: tree_one_nodes)
  have r2: "reachable tree_one 2"
    by (rule reachable.child[OF r0, of 1]) (simp add: tree_one_nodes)
  assume "m = 0 \<or> m = 1 \<or> m = 2"
  with r0 r1 r2 show "reachable tree_one m" by auto
qed

lemma frontier_tree_one: "frontier_invariant tree_one" "store_ok tree_one"
proof -
  have "{m. reachable tree_one m \<and> children (nodes tree_one m) = []} = {1, 2}"
    by (auto simp: reachable_tree_one tree_one_nodes)
  then show "frontier_invariant tree_one"
    by (simp add: frontier_invariant_def tree_one_nodes)
  show "store_ok tree_one"
    by (auto simp: store_ok_def reachable_tree_one tree_one_nodes)
qed

lemma available_narrow: "available_actions env_narrow 0 = [1, 2]"
  by (simp add: available_actions_def env_narrow_def)

lemma available_none: "available_actions env_none 0 = []"
  by (simp add: available_actions_def env_none_def)

lemma upt_3_5: "[3..<5] = [3, 4::nat]"
  by (simp add: upt_conv_Cons)

text \<open>
  An instance: on the prebuilt tree of depth one, the leaf 2 is expanded with the
  actions 1 and 2.
\<close>

theorem expand_frontier_witness:
  "make_root env_toy 0 (planner_init cfg_depth_one) = Ok 0 tree_one
   \<and> frontier_invariant tree_one \<and> store_ok tree_one \<and> 2 \<in> set (leaves tree_one)
   \<and> available_actions env_narrow 0 = [1, 2]
   \<and> (\<exists>s'. expand env_narrow orc_toy (Some 0) False 2 tree_one = Ok () s'
          \<and> map fst (children (nodes s' 2)) = [1, 2]
          \<and> map snd (children (nodes s' 2)) = [3, 4]
          \<and> leaves s' = [1, 3, 4]
          \<and> nodes s' 0 = nodes tree_one 0 \<and> nodes s' 1 = nodes tree_one 1
          \<and> frontier_invariant s' \<and> store_ok s')"
proof -
  have leaf: "2 \<in> set (leaves tree_one)" by (simp add: tree_one_nodes)
  have acts: "distinct (available_actions env_narrow 0)" by (simp add: available_narrow)
  note t = expand_frontier[OF frontier_tree_one leaf acts, of False orc_toy]
  from t obtain s' where s': "expand env_narrow orc_toy (Some 0) False 2 tree_one = Ok () s'"
    by blast
  from t s' have p:
    "map fst (children (nodes s' 2)) = [1, 2]"
    "map snd (children (nodes s' 2)) = [3, 4]"
    "leaves s' = [1, 3, 4]"
    "nodes s' 0 = nodes tree_one 0" "nodes s' 1 = nodes tree_one 1"
    "frontier_invariant s'" "store_ok s'"
    by (simp_all add: available_narrow tree_one_nodes upt_3_5)
  show ?thesis
    by (intro conjI exI[of _ s'] make_root_depth_one frontier_tree_one leaf available_narrow s' p)
qed

lemma expand_none:
  "expand env_none orc_toy (Some 0) False 2 tree_one = Ok () (tree_one\<lparr>leaves := [1]\<rparr>)"
  by (simp add: expand_def available_none tree_one_nodes)

text \<open>
  Claim C7 as stated fails for an empty set of actions: the leaf 2 of the same tree,
  expanded in a state without available action, is removed from \<open>leaves\<close> and
  nothing is added, while it stays reachable and without children; the frontier
  invariant is lost.
\<close>

theorem expand_without_actions_breaks_frontier:
  "frontier_invariant tree_one \<and> 2 \<in> set (leaves tree_one)
   \<and> available_actions env_none 0 = []
   \<and> expand env_none orc_toy (Some 0) False 2 tree_one = Ok () (tree_one\<lparr>leaves := [1]\<rparr>)
   \<and> reachable (tree_one\<lparr>leaves := [1]\<rparr>) 2
   \<and> children (nodes (tree_one\<lparr>leaves := [1]\<rparr>) 2) = []
   \<and> 2 \<notin> set (leaves (tree_one\<lparr>leaves := [1]\<rparr>))
   \<and> \<not> frontier_invariant (tree_one\<lparr>leaves := [1]\<rparr>)"
proof -
  let ?s = "tree_one\<lparr>leaves := [1]\<rparr>"
  have r0: "reachable ?s 0" using reachable.root[of ?s] by (simp add: tree_one_nodes)
  have r2: "reachable ?s 2"
    by (rule reachable.child[OF r0, of 1]) (simp add: tree_one_nodes)
  have c: "children (nodes ?s 2) = []" by (simp add: tree_one_nodes)
  have n: "2 \<notin> set (leaves ?s)" by simp
  have "\<not> frontier_invariant ?s"
    using r2 c n unfolding frontier_invariant_def by blast
  with r2 c n expand_none available_none frontier_tree_one(1) show ?thesis
    by (simp add: tree_one_nodes)
qed

subsection \<open>The prebuilt tree\<close>






















lemma prebuilt_layout_root_node [simp]:
  "prebuilt_layout bn r k (s\<lparr>root_node := x\<rparr>) = prebuilt_layout bn r k s"
  by (simp add: prebuilt_layout_def)








end
